theory Spec2Isabelle
  imports Complex_Main
begin

section \<open>Floating-point values\<close>

text \<open>
  The solver of \<^verbatim>\<open>src/solver.py\<close> computes with Python and numpy floats. A value is a
  finite number, an infinity or NaN. Finite arithmetic is modelled exactly over the reals
  (no rounding, no overflow, one zero); the special values follow IEEE 754 as numpy
  applies it: an operation on NaN gives NaN, \<open>inf - inf\<close> and \<open>0 * inf\<close> give NaN, a
  division of a nonzero number by zero gives an infinity, and every comparison with NaN
  is false. Where the truth of a statement depends on rounding (the bound on the damped
  value), it is stated for the operations rounded by an arbitrary function of bounded
  relative error as well.
\<close>

datatype fl = Fin real | PInf | NInf | NaN

fun fneg :: "fl \<Rightarrow> fl" where
  "fneg (Fin a) = Fin (- a)"
| "fneg PInf = NInf"
| "fneg NInf = PInf"
| "fneg NaN = NaN"

fun fadd :: "fl \<Rightarrow> fl \<Rightarrow> fl" where
  "fadd (Fin a) (Fin b) = Fin (a + b)"
| "fadd (Fin a) PInf = PInf"
| "fadd (Fin a) NInf = NInf"
| "fadd PInf (Fin b) = PInf"
| "fadd PInf PInf = PInf"
| "fadd PInf NInf = NaN"
| "fadd NInf (Fin b) = NInf"
| "fadd NInf PInf = NaN"
| "fadd NInf NInf = NInf"
| "fadd NaN y = NaN"
| "fadd x NaN = NaN"

definition fsub :: "fl \<Rightarrow> fl \<Rightarrow> fl" where
  "fsub x y = fadd x (fneg y)"

text \<open>The infinity whose sign is that of a nonzero finite number times \<open>pos\<close>.\<close>

definition signed_inf :: "bool \<Rightarrow> fl" where
  "signed_inf pos = (if pos then PInf else NInf)"

fun fmul :: "fl \<Rightarrow> fl \<Rightarrow> fl" where
  "fmul (Fin a) (Fin b) = Fin (a * b)"
| "fmul (Fin a) PInf = (if a = 0 then NaN else signed_inf (0 < a))"
| "fmul (Fin a) NInf = (if a = 0 then NaN else signed_inf (a < 0))"
| "fmul PInf (Fin b) = (if b = 0 then NaN else signed_inf (0 < b))"
| "fmul NInf (Fin b) = (if b = 0 then NaN else signed_inf (b < 0))"
| "fmul PInf PInf = PInf"
| "fmul PInf NInf = NInf"
| "fmul NInf PInf = NInf"
| "fmul NInf NInf = PInf"
| "fmul NaN y = NaN"
| "fmul x NaN = NaN"

fun fdiv :: "fl \<Rightarrow> fl \<Rightarrow> fl" where
  "fdiv (Fin a) (Fin b) =
     (if b = 0 then (if a = 0 then NaN else signed_inf (0 < a)) else Fin (a / b))"
| "fdiv (Fin a) PInf = Fin 0"
| "fdiv (Fin a) NInf = Fin 0"
| "fdiv PInf (Fin b) = signed_inf (0 \<le> b)"
| "fdiv NInf (Fin b) = signed_inf (b < 0)"
| "fdiv PInf PInf = NaN"
| "fdiv PInf NInf = NaN"
| "fdiv NInf PInf = NaN"
| "fdiv NInf NInf = NaN"
| "fdiv NaN y = NaN"
| "fdiv x NaN = NaN"

fun fabs :: "fl \<Rightarrow> fl" where
  "fabs (Fin a) = Fin \<bar>a\<bar>"
| "fabs PInf = PInf"
| "fabs NInf = PInf"
| "fabs NaN = NaN"

text \<open>\<open>fgt x y\<close> is Python's \<open>x > y\<close>, \<open>flt x y\<close> is \<open>x < y\<close>.\<close>

fun fgt :: "fl \<Rightarrow> fl \<Rightarrow> bool" where
  "fgt (Fin a) (Fin b) = (b < a)"
| "fgt (Fin a) PInf = False"
| "fgt (Fin a) NInf = True"
| "fgt PInf (Fin b) = True"
| "fgt PInf PInf = False"
| "fgt PInf NInf = True"
| "fgt NInf y = False"
| "fgt NaN y = False"
| "fgt x NaN = False"

definition flt :: "fl \<Rightarrow> fl \<Rightarrow> bool" where
  "flt x y = fgt y x"


text \<open>\<open>pd.isna\<close> and \<open>np.isnan\<close> on a float, and \<open>np.isinf\<close>.\<close>

definition isna :: "fl \<Rightarrow> bool" where
  "isna x = (x = NaN)"

definition isinf :: "fl \<Rightarrow> bool" where
  "isinf x = (x = PInf \<or> x = NInf)"

section \<open>The time-series store\<close>

text \<open>
  The store is a pandas DataFrame: an index of quarterly periods (here integers, a
  quarter count), a set of named columns, and one float per cell. \<open>data.at[t, name]\<close>
  raises \<open>KeyError\<close> when the row or the column is absent. An assignment
  \<open>data.at[t, name] = v\<close> to an absent row or column enlarges the frame, the new cells
  holding NaN, and \<open>data[name] = np.nan\<close> creates (or overwrites) a whole column of NaN.
\<close>

type_synonym period = int

datatype error = KeyError | NameError

record store =
  rows :: "period set"
  cols :: "string set"
  cell :: "period \<Rightarrow> string \<Rightarrow> fl"

definition at_get :: "store \<Rightarrow> period \<Rightarrow> string \<Rightarrow> error + fl" where
  "at_get s t name =
     (if t \<in> rows s \<and> name \<in> cols s then Inr (cell s t name) else Inl KeyError)"

definition at_set :: "store \<Rightarrow> period \<Rightarrow> string \<Rightarrow> fl \<Rightarrow> store" where
  "at_set s t name v =
     \<lparr> rows = insert t (rows s), cols = insert name (cols s),
       cell = (\<lambda>p m. if p = t \<and> m = name then v
                     else if p \<in> rows s \<and> m \<in> cols s then cell s p m else NaN) \<rparr>"

definition set_column_nan :: "store \<Rightarrow> string \<Rightarrow> store" where
  "set_column_nan s name =
     \<lparr> rows = rows s, cols = insert name (cols s),
       cell = (\<lambda>p m. if m = name then NaN else cell s p m) \<rparr>"

text \<open>
  The content of a cell as an observer sees it: the stored float, and NaN (undefined)
  where the frame has no such row or column.
\<close>

definition value_at :: "store \<Rightarrow> period \<Rightarrow> string \<Rightarrow> fl" where
  "value_at s t name = (if t \<in> rows s \<and> name \<in> cols s then cell s t name else NaN)"

section \<open>Equations and the solver object\<close>

text \<open>
  An equation function is called as \<open>func(data, t)\<close>. It raises, returns \<open>None\<close>, or
  returns a float; it does not write to the store (the solver performs the write).
  A registry entry is the triple (variable name, function, kind tag).
\<close>

datatype eq_result = Raised | RNone | RVal fl

type_synonym equation = "string \<times> (store \<Rightarrow> period \<Rightarrow> eq_result) \<times> string"

definition SOLVER_MAX_ITER :: int where "SOLVER_MAX_ITER = 200"
definition SOLVER_TOLERANCE :: real where "SOLVER_TOLERANCE = 1 / 10 ^ 8"
definition SOLVER_DAMPING :: real where "SOLVER_DAMPING = 7 / 10"

definition ADDITIVE_ADJUSTMENTS :: "(string \<times> string) list" where
  "ADDITIVE_ADJUSTMENTS =
     [(''PRMIP'', ''PRMIP_A''), (''PSNBCY'', ''PSNBCY_A''), (''SBHH'', ''SBHH_A''),
      (''TYWHH'', ''TYWHH_A''), (''EESC'', ''EESC_A''), (''MGDPNSA'', ''MGDPNSA_A'')]"

record solver =
  equations :: "equation list"
  max_iter :: int
  tol :: real
  damping :: real
  endogenous_vars :: "string list"

text \<open>
  Python's \<open>x or d\<close> for an optional number: \<open>d\<close> when \<open>x\<close> is \<open>None\<close> or zero
  (both are falsy), \<open>x\<close> otherwise.
\<close>

definition py_or :: "'a::zero option \<Rightarrow> 'a \<Rightarrow> 'a" where
  "py_or x d = (case x of None \<Rightarrow> d | Some v \<Rightarrow> if v = 0 then d else v)"

definition GaussSeidelSolver_init ::
  "equation list \<Rightarrow> int option \<Rightarrow> real option \<Rightarrow> real option \<Rightarrow> solver" where
  "GaussSeidelSolver_init eqs max_iter_arg tolerance_arg damping_arg =
     \<lparr> equations = eqs,
       max_iter = py_or max_iter_arg SOLVER_MAX_ITER,
       tol = py_or tolerance_arg SOLVER_TOLERANCE,
       damping = py_or damping_arg SOLVER_DAMPING,
       endogenous_vars = map fst eqs \<rparr>"

section \<open>Initialisation of a period\<close>

text \<open>
  \<open>_initialise_period\<close>: for each endogenous variable in registry order, create the
  column if it is absent, and seed an undefined cell at \<open>t\<close> from the previous period,
  or with 1.0 when that is undefined too. Both reads raise \<open>KeyError\<close> on an absent
  row; the store keeps what was written before the exception.
\<close>

fun initialise_vars :: "string list \<Rightarrow> period \<Rightarrow> store \<Rightarrow> (error + unit) \<times> store" where
  "initialise_vars [] t s = (Inr (), s)"
| "initialise_vars (name # names) t s =
     (let s1 = (if name \<notin> cols s then set_column_nan s name else s) in
      case at_get s1 t name of
        Inl e \<Rightarrow> (Inl e, s1)
      | Inr cur \<Rightarrow>
          if isna cur then
            (case at_get s1 (t - 1) name of
               Inl e \<Rightarrow> (Inl e, s1)
             | Inr prev_val \<Rightarrow>
                 if \<not> isna prev_val then initialise_vars names t (at_set s1 t name prev_val)
                 else initialise_vars names t (at_set s1 t name (Fin 1)))
          else initialise_vars names t s1)"

definition initialise_period :: "solver \<Rightarrow> period \<Rightarrow> store \<Rightarrow> (error + unit) \<times> store" where
  "initialise_period slv t s = initialise_vars (endogenous_vars slv) t s"

section \<open>The cost-block pre-solver\<close>

text \<open>
  \<open>_pre_solve_cost_block\<close> reads fourteen inputs at \<open>t\<close>, forms the exogenous parts
  \<open>a1\<close>, \<open>a2\<close>, \<open>a3\<close> (\<open>cost_block_rhs\<close>, the vector \<open>b\<close>) and the constant matrix,
  and calls \<open>np.linalg.solve\<close>. That
  routine belongs to numpy, not to this program: it is a parameter \<open>linalg_solve\<close>
  here, returning the three components of the solution or \<open>None\<close> when it raises.
  Every exception inside the \<open>try\<close> block is swallowed and leaves the store as it was.
\<close>

type_synonym linalg = "fl list list \<Rightarrow> fl list \<Rightarrow> (fl \<times> fl \<times> fl) option"

definition try_get :: "store \<Rightarrow> period \<Rightarrow> string \<Rightarrow> (fl \<Rightarrow> 'a option) \<Rightarrow> 'a option" where
  "try_get s t name k = (case at_get s t name of Inl e \<Rightarrow> None | Inr v \<Rightarrow> k v)"

definition cost_matrix :: "fl list list" where
  "cost_matrix =
     [[Fin 1, Fin (- (164 / 100) / 100), Fin (- (109 / 100) / 100)],
      [Fin (- (2813 / 100) / 100), Fin 1, Fin (- (34 / 100) / 100)],
      [Fin (- 16 / 100), Fin (- (295 / 100) / 100), Fin 1]]"

definition cost_rhs :: "fl \<Rightarrow> fl \<Rightarrow> fl \<Rightarrow> fl \<Rightarrow> fl \<Rightarrow> fl \<Rightarrow> fl list" where
  "cost_rhs ulc_r pmn_r pms_r oil_r tx_r ppiy_r =
     (let lin = (\<lambda>c1 c2 c3 c4 c5 c6.
            fadd (fadd (fadd (fadd (fadd (fmul (Fin c1) ulc_r) (fmul (Fin c2) pmn_r))
              (fmul (Fin c3) pms_r)) (fmul (Fin c4) oil_r)) (fmul (Fin c5) tx_r))
              (fmul (Fin c6) ppiy_r));
          a1 = lin (7054 / 100) (693 / 100) (641 / 100) (9 / 100) (352 / 100) (978 / 100);
          a2 = lin (4025 / 100) (280 / 100) (90 / 100) (3 / 100) (51 / 100) (2706 / 100);
          a3 = lin (1485 / 100) (304 / 100) (51 / 100) (5152 / 100) (290 / 100) (824 / 100)
      in [a1, a2, a3])"

definition cost_block_rhs :: "period \<Rightarrow> store \<Rightarrow> fl list option" where
  "cost_block_rhs t s =
     try_get s t ''ULCMS'' (\<lambda>ULCMS.
     try_get s t ''PMNOG'' (\<lambda>PMNOG.
     try_get s t ''PMS'' (\<lambda>PMS.
     try_get s t ''PBRENT'' (\<lambda>PBRENT.
     try_get s t ''RXD'' (\<lambda>RXD.
     try_get s t ''BPAPS'' (\<lambda>BPAPS.
     try_get s t ''GVA'' (\<lambda>GVA.
     try_get s t ''PPIY'' (\<lambda>PPIY.
     try_get s t ''ULCMSBASE'' (\<lambda>ULCMSBASE.
     try_get s t ''PMNOGBASE'' (\<lambda>PMNOGBASE.
     try_get s t ''PMSBASE'' (\<lambda>PMSBASE.
     try_get s t ''OILBASE'' (\<lambda>OILBASE.
     try_get s t ''TXRATEBASE'' (\<lambda>TXRATEBASE.
     try_get s t ''PPIYBASE'' (\<lambda>PPIYBASE.
       let ulc_r = fdiv ULCMS ULCMSBASE;
           pmn_r = fdiv PMNOG PMNOGBASE;
           pms_r = fdiv PMS PMSBASE;
           oil_r = fdiv (fdiv PBRENT RXD) OILBASE;
           tx_r = fdiv (fdiv BPAPS GVA) TXRATEBASE;
           ppiy_r = fdiv PPIY PPIYBASE
       in Some (cost_rhs ulc_r pmn_r pms_r oil_r tx_r ppiy_r)))))))))))))))"

definition cost_block_solution :: "linalg \<Rightarrow> period \<Rightarrow> store \<Rightarrow> (fl \<times> fl \<times> fl) option" where
  "cost_block_solution linalg_solve t s =
     (case cost_block_rhs t s of
        None \<Rightarrow> None
      | Some b \<Rightarrow> linalg_solve cost_matrix b)"

definition pre_solve_cost_block :: "linalg \<Rightarrow> period \<Rightarrow> store \<Rightarrow> store" where
  "pre_solve_cost_block linalg_solve t s =
     (if ''SCOST'' \<notin> cols s then s
      else case cost_block_solution linalg_solve t s of
             None \<Rightarrow> s
           | Some (x0, x1, x2) \<Rightarrow>
               at_set (at_set (at_set s t ''SCOST'' x0) t ''CCOST'' x1) t ''UTCOST'' x2)"

section \<open>The additive-adjustment post-processor\<close>

text \<open>
  \<open>_apply_additive_adjustments\<close> walks the table in order. For a pair whose two columns
  exist it reads the adjustment at \<open>t\<close> (\<open>KeyError\<close> on an absent row) and, when that is
  defined, performs \<open>data.at[t, var] += adj_val\<close>.
\<close>

fun apply_adjustment_pairs ::
  "(string \<times> string) list \<Rightarrow> period \<Rightarrow> store \<Rightarrow> (error + unit) \<times> store" where
  "apply_adjustment_pairs [] t s = (Inr (), s)"
| "apply_adjustment_pairs ((var, adj_var) # rest) t s =
     (if var \<in> cols s \<and> adj_var \<in> cols s then
        (case at_get s t adj_var of
           Inl e \<Rightarrow> (Inl e, s)
         | Inr adj_val \<Rightarrow>
             if \<not> isna adj_val then
               (case at_get s t var of
                  Inl e \<Rightarrow> (Inl e, s)
                | Inr cur \<Rightarrow> apply_adjustment_pairs rest t (at_set s t var (fadd cur adj_val)))
             else apply_adjustment_pairs rest t s)
      else apply_adjustment_pairs rest t s)"

definition apply_additive_adjustments :: "period \<Rightarrow> store \<Rightarrow> (error + unit) \<times> store" where
  "apply_additive_adjustments t s = apply_adjustment_pairs ADDITIVE_ADJUSTMENTS t s"

section \<open>One sweep over the registry\<close>

text \<open>
  The body of the inner loop of \<open>solve_period\<close>. The prior value is read first and an
  undefined one becomes 0.0. The equation is evaluated; an exception, \<open>None\<close>, NaN or an
  infinity means \<open>continue\<close>. Otherwise the damped value is stored and, when
  \<open>abs(old_val) > 1e-10\<close>, the relative change may replace the running maximum.
\<close>

definition usable_result :: "eq_result \<Rightarrow> fl option" where
  "usable_result r =
     (case r of
        Raised \<Rightarrow> None
      | RNone \<Rightarrow> None
      | RVal x \<Rightarrow> if isna x \<or> isinf x then None else Some x)"

definition prior_value :: "fl \<Rightarrow> fl" where
  "prior_value v = (if isna v then Fin 0 else v)"

definition damped_value :: "real \<Rightarrow> fl \<Rightarrow> fl \<Rightarrow> fl" where
  "damped_value d new_val old_val = fadd (fmul (Fin d) new_val) (fmul (Fin (1 - d)) old_val)"

definition rel_change_of :: "fl \<Rightarrow> fl \<Rightarrow> fl" where
  "rel_change_of damped_val old_val = fabs (fdiv (fsub damped_val old_val) old_val)"

definition tracked :: "fl \<Rightarrow> bool" where
  "tracked old_val = fgt (fabs old_val) (Fin (1 / 10 ^ 10))"

fun sweep_equation ::
  "solver \<Rightarrow> period \<Rightarrow> equation \<Rightarrow> fl \<times> string \<Rightarrow> store \<Rightarrow> (error + fl \<times> string) \<times> store" where
  "sweep_equation slv t (name, func, eq_type) (max_change, worst_var) s =
     (case at_get s t name of
        Inl e \<Rightarrow> (Inl e, s)
      | Inr v \<Rightarrow>
          (let old_val = prior_value v in
           (case usable_result (func s t) of
              None \<Rightarrow> (Inr (max_change, worst_var), s)
            | Some new_val \<Rightarrow>
                (let damped_val = damped_value (damping slv) new_val old_val;
                     s' = at_set s t name damped_val
                 in if tracked old_val then
                      (let rel_change = rel_change_of damped_val old_val
                       in if fgt rel_change max_change then (Inr (rel_change, name), s')
                          else (Inr (max_change, worst_var), s'))
                    else (Inr (max_change, worst_var), s')))))"

fun sweep ::
  "solver \<Rightarrow> period \<Rightarrow> equation list \<Rightarrow> fl \<times> string \<Rightarrow> store \<Rightarrow> (error + fl \<times> string) \<times> store" where
  "sweep slv t [] mw s = (Inr mw, s)"
| "sweep slv t (eq # eqs) mw s =
     (case sweep_equation slv t eq mw s of
        (Inl e, s') \<Rightarrow> (Inl e, s')
      | (Inr mw', s') \<Rightarrow> sweep slv t eqs mw' s')"

section \<open>Solving a period and a range\<close>

text \<open>
  The outer loop runs \<open>range(max_iter)\<close> sweeps. \<open>iterate\<close> takes the number of sweeps
  left, the loop variable \<open>iteration\<close>, and the \<open>max_change\<close> and \<open>worst_var\<close> of the
  previous sweep (\<open>None\<close> while the names are unbound). A sweep whose maximum is below
  the tolerance applies the adjustments and returns \<open>iteration + 1\<close>. When the budget is
  used up the warning is printed (reading \<open>max_change\<close>: a \<open>NameError\<close> if no sweep has
  run), the adjustments are applied and \<open>max_iter\<close> is returned. The printed warnings
  are the second component of the result; the progress lines of verbose mode are not
  modelled.
\<close>

datatype warning = Warning period int fl string

fun iterate ::
  "solver \<Rightarrow> period \<Rightarrow> nat \<Rightarrow> int \<Rightarrow> (fl \<times> string) option \<Rightarrow> store
   \<Rightarrow> (error + int) \<times> warning list \<times> store" where
  "iterate slv t 0 iteration prev s =
     (case prev of
        None \<Rightarrow> (Inl NameError, [], s)
      | Some (max_change, worst_var) \<Rightarrow>
          (case apply_additive_adjustments t s of
             (Inl e, s') \<Rightarrow> (Inl e, [Warning t (max_iter slv) max_change worst_var], s')
           | (Inr u, s') \<Rightarrow>
               (Inr (max_iter slv), [Warning t (max_iter slv) max_change worst_var], s')))"
| "iterate slv t (Suc k) iteration prev s =
     (case sweep slv t (equations slv) (Fin 0, []) s of
        (Inl e, s') \<Rightarrow> (Inl e, [], s')
      | (Inr (max_change, worst_var), s') \<Rightarrow>
          if flt max_change (Fin (tol slv)) then
            (case apply_additive_adjustments t s' of
               (Inl e, s'') \<Rightarrow> (Inl e, [], s'')
             | (Inr u, s'') \<Rightarrow> (Inr (iteration + 1), [], s''))
          else iterate slv t k (iteration + 1) (Some (max_change, worst_var)) s')"

definition solve_period ::
  "linalg \<Rightarrow> solver \<Rightarrow> period \<Rightarrow> store \<Rightarrow> (error + int) \<times> warning list \<times> store" where
  "solve_period linalg_solve slv t s =
     (case initialise_period slv t s of
        (Inl e, s1) \<Rightarrow> (Inl e, [], s1)
      | (Inr u, s1) \<Rightarrow>
          iterate slv t (nat (max_iter slv)) 0 None (pre_solve_cost_block linalg_solve t s1))"

text \<open>
  \<open>solve_range\<close>: the \<open>while t <= end_period\<close> loop. An exception of \<open>solve_period\<close>
  ends it; otherwise \<open>(t, iters)\<close> is recorded and \<open>t\<close> advances by one quarter.
\<close>

function solve_range ::
  "linalg \<Rightarrow> solver \<Rightarrow> period \<Rightarrow> period \<Rightarrow> store
   \<Rightarrow> (error + (period \<times> int) list) \<times> warning list \<times> store" where
  "solve_range linalg_solve slv t end_period s =
     (if t \<le> end_period then
        (case solve_period linalg_solve slv t s of
           (Inl e, ws, s') \<Rightarrow> (Inl e, ws, s')
         | (Inr iters, ws, s') \<Rightarrow>
             (case solve_range linalg_solve slv (t + 1) end_period s' of
                (Inl e, ws', s'') \<Rightarrow> (Inl e, ws @ ws', s'')
              | (Inr results, ws', s'') \<Rightarrow> (Inr ((t, iters) # results), ws @ ws', s'')))
      else (Inr [], [], s))"
  by pat_completeness auto
termination
  by (relation "measure (\<lambda>(linalg_solve, slv, t, end_period, s). nat (end_period + 1 - t))") auto

declare solve_range.simps [simp del]

section \<open>Auxiliary notions for the statements\<close>


text \<open>
  Small fixtures on which the theorems are exercised: an equation that returns the same
  result whatever the store holds, a registry of that one equation for the variable
  \<open>X\<close>, and a store of three periods and the single column \<open>X\<close> holding \<open>v\<close>
  everywhere.
\<close>

definition const_eq :: "eq_result \<Rightarrow> store \<Rightarrow> period \<Rightarrow> eq_result" where
  "const_eq r s t = r"

definition flat_store :: "fl \<Rightarrow> store" where
  "flat_store v = \<lparr> rows = {0, 1, 2}, cols = {''X''}, cell = (\<lambda>p m. v) \<rparr>"

definition one_equation :: "eq_result \<Rightarrow> equation list" where
  "one_equation r = [(''X'', const_eq r, ''identity'')]"

text \<open>
  The successful updates of one sweep, in order, as (variable, old value, stored damped
  value): the equations that are skipped leave no entry. \<open>tracked_changes\<close> keeps the
  updates with \<open>abs(old) > 1e-10\<close> and gives each its relative change;
  \<open>store_updates\<close> writes the damped values of a list of updates at period \<open>t\<close>.
\<close>

fun sweep_updates :: "solver \<Rightarrow> period \<Rightarrow> equation list \<Rightarrow> store \<Rightarrow> (string \<times> fl \<times> fl) list" where
  "sweep_updates slv t [] s = []"
| "sweep_updates slv t ((name, func, eq_type) # eqs) s =
     (case at_get s t name of
        Inl e \<Rightarrow> []
      | Inr v \<Rightarrow>
          (case usable_result (func s t) of
             None \<Rightarrow> sweep_updates slv t eqs s
           | Some new_val \<Rightarrow>
               (let damped_val = damped_value (damping slv) new_val (prior_value v)
                in (name, prior_value v, damped_val)
                   # sweep_updates slv t eqs (at_set s t name damped_val))))"

definition tracked_changes :: "(string \<times> fl \<times> fl) list \<Rightarrow> (fl \<times> string) list" where
  "tracked_changes ups =
     map (\<lambda>(name, old_val, damped_val). (rel_change_of damped_val old_val, name))
       (filter (\<lambda>(name, old_val, damped_val). tracked old_val) ups)"

definition store_updates :: "period \<Rightarrow> (string \<times> fl \<times> fl) list \<Rightarrow> store \<Rightarrow> store" where
  "store_updates t ups s = foldl (\<lambda>s' (name, old_val, damped_val). at_set s' t name damped_val) s ups"

text \<open>
  \<open>writes_only T s s'\<close>: the store \<open>s'\<close> has the rows and columns of \<open>s\<close> (and maybe
  more) and shows the same content as \<open>s\<close> in every cell whose period is outside \<open>T\<close>.
\<close>

definition writes_only :: "period set \<Rightarrow> store \<Rightarrow> store \<Rightarrow> bool" where
  "writes_only T s s' =
     (rows s \<subseteq> rows s' \<and> cols s \<subseteq> cols s'
      \<and> (\<forall>p m. p \<notin> T \<longrightarrow> value_at s' p m = value_at s p m))"

text \<open>
  Sequencing of range results: the second part runs on the store the first part left,
  unless the first part raised; records and warnings are concatenated.
\<close>

definition then_range ::
  "(error + (period \<times> int) list) \<times> warning list \<times> store
   \<Rightarrow> (store \<Rightarrow> (error + (period \<times> int) list) \<times> warning list \<times> store)
   \<Rightarrow> (error + (period \<times> int) list) \<times> warning list \<times> store" where
  "then_range first rest =
     (case first of
        (Inl e, ws, s') \<Rightarrow> (Inl e, ws, s')
      | (Inr results, ws, s') \<Rightarrow>
          (case rest s' of
             (Inl e, ws', s'') \<Rightarrow> (Inl e, ws @ ws', s'')
           | (Inr results', ws', s'') \<Rightarrow> (Inr (results @ results'), ws @ ws', s'')))"

text \<open>
  The effect the post-processor is specified to have on a store \<open>s\<close>: the cell
  \<open>(t, name)\<close> of a target of the table gains the adjustment variable's value at \<open>t\<close>
  when both columns exist and that value is defined; every other cell shows what it
  showed.
\<close>

definition adjusted :: "(string \<times> string) list \<Rightarrow> period \<Rightarrow> store \<Rightarrow> period \<Rightarrow> string \<Rightarrow> fl" where
  "adjusted tbl t s p name =
     (case map_of tbl name of
        None \<Rightarrow> value_at s p name
      | Some adj_var \<Rightarrow>
          if p = t \<and> name \<in> cols s \<and> adj_var \<in> cols s \<and> \<not> isna (value_at s t adj_var)
          then fadd (value_at s t name) (value_at s t adj_var)
          else value_at s p name)"

text \<open>
  The sweep loop on its own, as the period solver's state machine describes it: sweeps
  are run until one of them ends below the tolerance or the budget is used up, and
  nothing else touches the store. \<open>finish\<close> is what follows the loop: the warning for
  an exhausted budget, one application of the post-processor, and the return value.
\<close>

datatype outcome = Converged int | Exhausted fl string | Unbound | Aborted error

fun run_sweeps ::
  "solver \<Rightarrow> period \<Rightarrow> nat \<Rightarrow> int \<Rightarrow> (fl \<times> string) option \<Rightarrow> store \<Rightarrow> outcome \<times> store" where
  "run_sweeps slv t 0 iteration prev s =
     (case prev of
        None \<Rightarrow> (Unbound, s)
      | Some (max_change, worst_var) \<Rightarrow> (Exhausted max_change worst_var, s))"
| "run_sweeps slv t (Suc k) iteration prev s =
     (case sweep slv t (equations slv) (Fin 0, []) s of
        (Inl e, s') \<Rightarrow> (Aborted e, s')
      | (Inr (max_change, worst_var), s') \<Rightarrow>
          if flt max_change (Fin (tol slv)) then (Converged (iteration + 1), s')
          else run_sweeps slv t k (iteration + 1) (Some (max_change, worst_var)) s')"

fun finish :: "solver \<Rightarrow> period \<Rightarrow> outcome \<Rightarrow> store \<Rightarrow> (error + int) \<times> warning list \<times> store" where
  "finish slv t (Converged n) s =
     (case apply_additive_adjustments t s of
        (Inl e, s') \<Rightarrow> (Inl e, [], s')
      | (Inr u, s') \<Rightarrow> (Inr n, [], s'))"
| "finish slv t (Exhausted max_change worst_var) s =
     (case apply_additive_adjustments t s of
        (Inl e, s') \<Rightarrow> (Inl e, [Warning t (max_iter slv) max_change worst_var], s')
      | (Inr u, s') \<Rightarrow> (Inr (max_iter slv), [Warning t (max_iter slv) max_change worst_var], s'))"
| "finish slv t Unbound s = (Inl NameError, [], s)"
| "finish slv t (Aborted e) s = (Inl e, [], s)"

text \<open>
  Further fixtures: a linear solver that always raises, an equation that returns the
  negated current value of \<open>X\<close> (it oscillates under damping 1.0), and a store that also
  has the columns of one adjustment pair.
\<close>

definition no_linalg :: linalg where
  "no_linalg A b = None"

definition flip_eq :: "store \<Rightarrow> period \<Rightarrow> eq_result" where
  "flip_eq s t = (case at_get s t ''X'' of Inl e \<Rightarrow> Raised | Inr v \<Rightarrow> RVal (fneg v))"

definition adj_store :: "fl \<Rightarrow> store" where
  "adj_store v =
     \<lparr> rows = {0, 1, 2}, cols = {''X'', ''PRMIP'', ''PRMIP_A''}, cell = (\<lambda>p m. v) \<rparr>"

text \<open>
  The relative change the convergence metric is specified to track, in its own words:
  for a successful update with finite old and stored values and \<open>abs(old) > 1e-10\<close> it is
  \<open>|stored - old| / |old|\<close>; an update with \<open>abs(old) <= 1e-10\<close> contributes nothing,
  and neither does one with an infinite old value (its relative change is NaN).
\<close>

fun relative_change :: "string \<times> fl \<times> fl \<Rightarrow> (real \<times> string) list" where
  "relative_change (name, Fin old, Fin stored) =
     (if \<bar>old\<bar> \<le> 1 / 10 ^ 10 then [] else [(\<bar>stored - old\<bar> / \<bar>old\<bar>, name)])"
| "relative_change (name, old_val, stored_val) = []"

definition relative_changes :: "(string \<times> fl \<times> fl) list \<Rightarrow> (real \<times> string) list" where
  "relative_changes ups = concat (map relative_change ups)"


text \<open>
  Line 155 with every arithmetic operation rounded by \<open>rnd\<close>: the difference \<open>1 - d\<close>,
  the two products and the sum. \<open>damped_value\<close> is the case of exact arithmetic. For
  IEEE doubles in the normal range \<open>rnd\<close> has relative error at most \<open>2 ^ -53\<close>.
\<close>

definition rounded_blend :: "(real \<Rightarrow> real) \<Rightarrow> real \<Rightarrow> real \<Rightarrow> real \<Rightarrow> real" where
  "rounded_blend rnd d new_val old_val = rnd (rnd (d * new_val) + rnd (rnd (1 - d) * old_val))"






text \<open>
  More fixtures: a store with the columns \<open>X\<close>, \<open>Y\<close>, \<open>Z\<close>; a registry of three
  constant equations; an equation for \<open>1 / Z\<close>, which reads the store, and a registry
  holding it; a rounding function with relative error 1/1000; an exact linear solver
  (Cramer's rule on finite entries); and a store holding the cost block's inputs.
\<close>

definition xyz_store :: "fl \<Rightarrow> fl \<Rightarrow> fl \<Rightarrow> store" where
  "xyz_store x y z =
     \<lparr> rows = {0, 1, 2}, cols = {''X'', ''Y'', ''Z''},
       cell = (\<lambda>p m. if m = ''X'' then x else if m = ''Y'' then y else z) \<rparr>"

definition three_equations :: "equation list" where
  "three_equations =
     [(''X'', const_eq (RVal (Fin 3)), ''identity''), (''Y'', const_eq (RVal (Fin 5)), ''identity''),
      (''Z'', const_eq (RVal (Fin 5)), ''identity'')]"



definition coarse_rnd :: "real \<Rightarrow> real" where
  "coarse_rnd x = x + x / 1000"





section \<open>Properties\<close>

subsection \<open>Construction\<close>

text \<open>
  C9. A constructor argument of 0 (or 0.0) for \<open>max_iter\<close>, \<open>tolerance\<close> or \<open>damping\<close>
  is falsy and is replaced by the configured default (200, 1e-8, 0.7), whatever the
  other arguments are; so no call of the constructor yields a damping factor of 0.
\<close>

theorem init_falsy_arguments_default:
  "max_iter (GaussSeidelSolver_init eqs (Some 0) tolr damp) = 200
   \<and> tol (GaussSeidelSolver_init eqs maxi (Some 0) damp) = 1 / 10 ^ 8
   \<and> damping (GaussSeidelSolver_init eqs maxi tolr (Some 0)) = 7 / 10
   \<and> damping (GaussSeidelSolver_init eqs maxi tolr damp) \<noteq> 0"
  by (simp add: GaussSeidelSolver_init_def py_or_def SOLVER_MAX_ITER_def
      SOLVER_TOLERANCE_def SOLVER_DAMPING_def split: option.split)

subsection \<open>Store and result basics\<close>

lemma value_at_at_set [simp]:
  "value_at (at_set s t name v) p m = (if p = t \<and> m = name then v else value_at s p m)"
  by (simp add: value_at_def at_set_def)

lemma usable_result_Some:
  "usable_result r = Some x \<Longrightarrow> \<exists>c. x = Fin c \<and> r = RVal (Fin c)"
  by (cases r; cases x) (auto simp: usable_result_def isna_def isinf_def split: if_splits)

lemma usable_result_None:
  "usable_result r = None \<longleftrightarrow> r \<in> {Raised, RNone, RVal NaN, RVal PInf, RVal NInf}"
  by (cases r) (auto simp: usable_result_def isna_def isinf_def split: if_splits)

lemma prior_value_not_nan: "prior_value v \<noteq> NaN"
  by (simp add: prior_value_def isna_def)

subsection \<open>Evaluation on the fixtures\<close>

lemmas fixture_defs =
  flat_store_def adj_store_def one_equation_def const_eq_def flip_eq_def no_linalg_def
  GaussSeidelSolver_init_def py_or_def SOLVER_MAX_ITER_def SOLVER_TOLERANCE_def SOLVER_DAMPING_def

lemmas run_defs =
  solve_period_def initialise_period_def pre_solve_cost_block_def apply_additive_adjustments_def
  ADDITIVE_ADJUSTMENTS_def at_get_def at_set_def set_column_nan_def value_at_def
  usable_result_def prior_value_def damped_value_def rel_change_of_def tracked_def
  isna_def isinf_def fsub_def flt_def Let_def

subsection \<open>Damping\<close>







text \<open>
  Rounding can push the stored value out of the interval: with old and computed both 1
  and the rounding of the fixture, the rounded blend is above 1.
\<close>

lemma rounded_blend_leaves_interval:
  "rounded_blend coarse_rnd (7 / 10) 1 1 = 10023016003 / 10000000000
   \<and> max (1::real) 1 < rounded_blend coarse_rnd (7 / 10) 1 1"
  by (simp add: rounded_blend_def coarse_rnd_def)


subsection \<open>Skipped equations\<close>

lemma at_set_rows_cols:
  "t \<in> rows s \<Longrightarrow> name \<in> cols s \<Longrightarrow>
   rows (at_set s t name v) = rows s \<and> cols (at_set s t name v) = cols s"
  by (auto simp: at_set_def)

lemma sweep_equation_skip:
  assumes "at_get s t name = Inr v" "usable_result (func s t) = None"
  shows "sweep_equation slv t (name, func, eq_type) mw s = (Inr mw, s)"
  using assms by (cases mw) simp

lemma sweep_equation_ok:
  assumes "t \<in> rows s" "name \<in> cols s"
  shows "\<exists>mw' s'. sweep_equation slv t (name, func, eq_type) mw s = (Inr mw', s')
           \<and> rows s' = rows s \<and> cols s' = cols s"
  using assms
  by (cases mw) (auto simp: at_get_def Let_def at_set_rows_cols split: option.splits)

lemma sweep_ok:
  assumes "t \<in> rows s" "\<forall>eq \<in> set eqs. fst eq \<in> cols s"
  shows "\<exists>mw' s'. sweep slv t eqs mw s = (Inr mw', s') \<and> rows s' = rows s \<and> cols s' = cols s"
  using assms
proof (induction eqs arbitrary: mw s)
  case Nil
  then show ?case by simp
next
  case (Cons eq eqs)
  obtain name func eq_type where eq: "eq = (name, func, eq_type)" by (cases eq) auto
  from Cons.prems have "name \<in> cols s" by (simp add: eq)
  from sweep_equation_ok[OF Cons.prems(1) this, of slv func eq_type mw]
  obtain mw' s' where st: "sweep_equation slv t eq mw s = (Inr mw', s')"
    and rc: "rows s' = rows s" "cols s' = cols s" unfolding eq by blast
  have "t \<in> rows s'" "\<forall>eq \<in> set eqs. fst eq \<in> cols s'" using Cons.prems rc by auto
  from Cons.IH[OF this, of mw'] show ?case using st rc by auto
qed

lemma sweep_equation_other_names:
  "sweep_equation slv t (name, func, eq_type) mw s = (r, s') \<Longrightarrow> m \<noteq> name \<Longrightarrow>
   value_at s' p m = value_at s p m"
  by (cases mw) (auto simp: Let_def split: sum.splits option.splits if_splits)

lemma sweep_other_names:
  "sweep slv t eqs mw s = (r, s') \<Longrightarrow> m \<notin> fst ` set eqs \<Longrightarrow> value_at s' p m = value_at s p m"
proof (induction eqs arbitrary: mw s)
  case Nil
  then show ?case by simp
next
  case (Cons eq eqs)
  obtain name func eq_type where eq: "eq = (name, func, eq_type)" by (cases eq) auto
  obtain r1 s1 where st: "sweep_equation slv t eq mw s = (r1, s1)"
    by (cases "sweep_equation slv t eq mw s")
  from Cons.prems(2) have ne: "m \<noteq> name" "m \<notin> fst ` set eqs" by (auto simp: eq)
  have same1: "value_at s1 p m = value_at s p m"
    using st ne(1) unfolding eq by (rule sweep_equation_other_names)
  show ?case
  proof (cases r1)
    case (Inl e)
    with st Cons.prems(1) same1 show ?thesis by simp
  next
    case (Inr mw')
    with st Cons.prems(1) have "sweep slv t eqs mw' s1 = (r, s')" by simp
    from Cons.IH[OF this ne(2)] same1 show ?thesis by simp
  qed
qed

text \<open>
  C8. When the evaluation of an equation raises or returns \<open>None\<close>, NaN or an infinity
  (in a store where the cells of the registry's variables at \<open>t\<close> can be read, as they
  can after initialisation), its step leaves the store and the running maximum as they
  were, and the sweep goes on with the step of the next equation of the registry on that
  unchanged state: an equation that evaluates successfully there stores its damped
  value. The sweep as a whole returns normally, and the failing variable's cell at \<open>t\<close>
  is what it was unless a later equation of the registry has the same variable.
\<close>

theorem failing_equation_skipped:
  assumes "t \<in> rows s"
    and "\<forall>eq \<in> set ((name, func, eq_type) # (name2, func2, eq_type2) # rest). fst eq \<in> cols s"
    and "func s t \<in> {Raised, RNone, RVal NaN, RVal PInf, RVal NInf}"
  shows "sweep_equation slv t (name, func, eq_type) mw s = (Inr mw, s)
       \<and> sweep slv t ((name, func, eq_type) # (name2, func2, eq_type2) # rest) mw s
           = (case sweep_equation slv t (name2, func2, eq_type2) mw s of
                (Inl e, s2) \<Rightarrow> (Inl e, s2)
              | (Inr mw2, s2) \<Rightarrow> sweep slv t rest mw2 s2)
       \<and> (\<exists>mw2 s2. sweep_equation slv t (name2, func2, eq_type2) mw s = (Inr mw2, s2)
            \<and> (\<forall>c. usable_result (func2 s t) = Some c \<longrightarrow>
                  s2 = at_set s t name2
                         (damped_value (damping slv) c (prior_value (cell s t name2)))))
       \<and> (\<exists>mw' s'. sweep slv t ((name, func, eq_type) # (name2, func2, eq_type2) # rest) mw s
                       = (Inr mw', s')
            \<and> (name \<notin> fst ` set ((name2, func2, eq_type2) # rest) \<longrightarrow>
                  value_at s' t name = value_at s t name))"
proof -
  let ?eqs = "(name2, func2, eq_type2) # rest"
  have g: "at_get s t name = Inr (cell s t name)" using assms(1,2) by (simp add: at_get_def)
  have g2: "at_get s t name2 = Inr (cell s t name2)" using assms(1,2) by (simp add: at_get_def)
  have u: "usable_result (func s t) = None" using assms(3) by (simp add: usable_result_None)
  have 1: "sweep_equation slv t (name, func, eq_type) mw s = (Inr mw, s)"
    using g u by (cases mw) simp
  have 2: "sweep slv t ((name, func, eq_type) # ?eqs) mw s
      = (case sweep_equation slv t (name2, func2, eq_type2) mw s of
           (Inl e, s2) \<Rightarrow> (Inl e, s2)
         | (Inr mw2, s2) \<Rightarrow> sweep slv t rest mw2 s2)"
    using 1 by simp
  have 3: "\<exists>mw2 s2. sweep_equation slv t (name2, func2, eq_type2) mw s = (Inr mw2, s2)
            \<and> (\<forall>c. usable_result (func2 s t) = Some c \<longrightarrow>
                  s2 = at_set s t name2
                         (damped_value (damping slv) c (prior_value (cell s t name2))))"
    using g2 by (cases mw) (auto simp: Let_def split: option.splits)
  from sweep_ok[OF assms(1), of "(name, func, eq_type) # ?eqs" slv mw] assms(2)
  obtain mw' s' where sw: "sweep slv t ((name, func, eq_type) # ?eqs) mw s = (Inr mw', s')"
    by auto
  have "value_at s' t name = value_at s t name" if "name \<notin> fst ` set ?eqs"
  proof -
    from sw 1 have "sweep slv t ?eqs mw s = (Inr mw', s')" by simp
    from sweep_other_names[OF this that] show ?thesis .
  qed
  with 1 2 3 sw show ?thesis by blast
qed

theorem failing_equation_skipped_witness:
  "sweep (GaussSeidelSolver_init [] None None None) 1
      [(''Y'', const_eq (RVal PInf), ''identity''), (''X'', const_eq (RVal (Fin 2)), ''identity'')]
      (Fin 0, []) (xyz_store (Fin 1) (Fin 1) (Fin 1))
   = (Inr (Fin (7 / 10), ''X''),
      at_set (xyz_store (Fin 1) (Fin 1) (Fin 1)) 1 ''X'' (Fin (17 / 10)))
   \<and> value_at (at_set (xyz_store (Fin 1) (Fin 1) (Fin 1)) 1 ''X'' (Fin (17 / 10))) 1 ''Y'' = Fin 1
   \<and> value_at (at_set (xyz_store (Fin 1) (Fin 1) (Fin 1)) 1 ''X'' (Fin (17 / 10))) 1 ''X''
       = Fin (17 / 10)"
proof -
  let ?slv = "GaussSeidelSolver_init [] None None None"
  let ?s = "xyz_store (Fin 1) (Fin 1) (Fin 1)"
  have row: "1 \<in> rows ?s" by (simp add: xyz_store_def)
  have cols: "\<forall>eq \<in> set ((''Y'', const_eq (RVal PInf), ''identity'')
      # (''X'', const_eq (RVal (Fin 2)), ''identity'') # []). fst eq \<in> cols ?s"
    by (simp add: xyz_store_def)
  have fails: "const_eq (RVal PInf) ?s 1 \<in> {Raised, RNone, RVal NaN, RVal PInf, RVal NInf}"
    by (simp add: const_eq_def)
  have nxt: "sweep_equation ?slv 1 (''X'', const_eq (RVal (Fin 2)), ''identity'') (Fin 0, []) ?s
      = (Inr (Fin (7 / 10), ''X''), at_set ?s 1 ''X'' (Fin (17 / 10)))"
    by (simp add: fixture_defs xyz_store_def at_get_def usable_result_def prior_value_def
        damped_value_def rel_change_of_def tracked_def isna_def isinf_def fsub_def Let_def)
  from failing_equation_skipped[where slv="?slv" and mw="(Fin 0, [])" and func="const_eq (RVal PInf)", OF row cols fails]
  have "sweep ?slv 1 [(''Y'', const_eq (RVal PInf), ''identity''),
            (''X'', const_eq (RVal (Fin 2)), ''identity'')] (Fin 0, []) ?s
      = (case sweep_equation ?slv 1 (''X'', const_eq (RVal (Fin 2)), ''identity'') (Fin 0, []) ?s of
           (Inl e, s2) \<Rightarrow> (Inl e, s2)
         | (Inr mw2, s2) \<Rightarrow> sweep ?slv 1 [] mw2 s2)"
    by blast
  then have "sweep ?slv 1 [(''Y'', const_eq (RVal PInf), ''identity''),
            (''X'', const_eq (RVal (Fin 2)), ''identity'')] (Fin 0, []) ?s
      = (Inr (Fin (7 / 10), ''X''), at_set ?s 1 ''X'' (Fin (17 / 10)))"
    by (simp only: nxt prod.case sum.case sweep.simps)
  moreover have "value_at ?s 1 ''Y'' = Fin 1" by (simp add: xyz_store_def value_at_def)
  ultimately show ?thesis by simp
qed

subsection \<open>Undefined prior value\<close>



subsection \<open>The convergence metric\<close>

lemma fgt_irrefl: "\<not> fgt x x"
  by (cases x) auto

lemma fgt_asym: "fgt a b \<Longrightarrow> \<not> fgt b a"
  by (cases a; cases b) auto

lemma fgt_trans: "fgt a b \<Longrightarrow> fgt b c \<Longrightarrow> fgt a c"
  by (cases a; cases b; cases c) auto

lemma fgt_above: "fgt a b \<Longrightarrow> \<not> fgt c b \<Longrightarrow> \<not> fgt c a"
  by (cases a; cases b; cases c) auto

lemma tracked_changes_Cons:
  "tracked_changes ((name, old_val, damped_val) # ups) =
     (if tracked old_val then (rel_change_of damped_val old_val, name) # tracked_changes ups
      else tracked_changes ups)"
  by (simp add: tracked_changes_def)

lemma store_updates_Cons:
  "store_updates t ((name, old_val, damped_val) # ups) s = store_updates t ups (at_set s t name damped_val)"
  by (simp add: store_updates_def)

lemma sweep_metric_general:
  assumes "sweep slv t eqs (mc0, wv0) s = (Inr (mc, wv), s')"
  shows "(mc, wv) \<in> set ((mc0, wv0) # tracked_changes (sweep_updates slv t eqs s))
       \<and> (mc = mc0 \<or> fgt mc mc0)
       \<and> (\<forall>(r, n) \<in> set (tracked_changes (sweep_updates slv t eqs s)). \<not> fgt r mc)
       \<and> s' = store_updates t (sweep_updates slv t eqs s) s"
  using assms
proof (induction eqs arbitrary: mc0 wv0 s)
  case Nil
  then show ?case by (simp add: tracked_changes_def store_updates_def)
next
  case (Cons eq eqs)
  obtain name func eq_type where eq: "eq = (name, func, eq_type)" by (cases eq) auto
  show ?case
  proof (cases "at_get s t name")
    case (Inl e)
    with Cons.prems show ?thesis by (simp add: eq)
  next
    case (Inr v)
    show ?thesis
    proof (cases "usable_result (func s t)")
      case None
      with Inr Cons.prems have "sweep slv t eqs (mc0, wv0) s = (Inr (mc, wv), s')"
        by (simp add: eq)
      from Cons.IH[OF this] show ?thesis using Inr None by (simp add: eq)
    next
      case (Some new_val)
      define dv where "dv = damped_value (damping slv) new_val (prior_value v)"
      define s1 where "s1 = at_set s t name dv"
      define r0 where "r0 = rel_change_of dv (prior_value v)"
      have ups: "sweep_updates slv t (eq # eqs) s = (name, prior_value v, dv) # sweep_updates slv t eqs s1"
        using Inr Some by (simp add: eq dv_def s1_def Let_def)
      show ?thesis
      proof (cases "tracked (prior_value v)")
        case False
        with Inr Some Cons.prems have "sweep slv t eqs (mc0, wv0) s1 = (Inr (mc, wv), s')"
          by (simp add: eq dv_def s1_def Let_def)
        from Cons.IH[OF this] show ?thesis
          unfolding ups using False by (simp add: tracked_changes_Cons store_updates_Cons s1_def)
      next
        case True
        note tr = True
        show ?thesis
        proof (cases "fgt r0 mc0")
          case False
          with tr Inr Some Cons.prems have "sweep slv t eqs (mc0, wv0) s1 = (Inr (mc, wv), s')"
            by (simp add: eq dv_def s1_def r0_def Let_def)
          from Cons.IH[OF this] have ih: "(mc, wv) \<in> set ((mc0, wv0) # tracked_changes (sweep_updates slv t eqs s1))"
            "mc = mc0 \<or> fgt mc mc0"
            "\<forall>(r, n) \<in> set (tracked_changes (sweep_updates slv t eqs s1)). \<not> fgt r mc"
            "s' = store_updates t (sweep_updates slv t eqs s1) s1" by auto
          have "\<not> fgt r0 mc" using ih(2) False fgt_above by blast
          then show ?thesis unfolding ups using ih tr
            by (auto simp add: tracked_changes_Cons store_updates_Cons s1_def r0_def)
        next
          case True
          with tr Inr Some Cons.prems have "sweep slv t eqs (r0, name) s1 = (Inr (mc, wv), s')"
            by (simp add: eq dv_def s1_def r0_def Let_def)
          from Cons.IH[OF this] have ih: "(mc, wv) \<in> set ((r0, name) # tracked_changes (sweep_updates slv t eqs s1))"
            "mc = r0 \<or> fgt mc r0"
            "\<forall>(r, n) \<in> set (tracked_changes (sweep_updates slv t eqs s1)). \<not> fgt r mc"
            "s' = store_updates t (sweep_updates slv t eqs s1) s1" by auto
          have a: "\<not> fgt r0 mc" using ih(2) fgt_irrefl fgt_asym by blast
          have b: "mc = mc0 \<or> fgt mc mc0" using ih(2) True fgt_trans by blast
          show ?thesis unfolding ups using ih a b tr
            by (auto simp add: tracked_changes_Cons store_updates_Cons s1_def r0_def)
        qed
      qed
    qed
  qed
qed

lemma tracked_Fin: "tracked (Fin a) \<longleftrightarrow> \<not> \<bar>a\<bar> \<le> 1 / 10 ^ 10"
  by (simp add: tracked_def not_le)

lemma rel_change_of_infinite:
  "isinf old_val \<Longrightarrow> rel_change_of (damped_value d (Fin c) old_val) old_val = NaN"
  by (cases old_val)
    (auto simp: isinf_def rel_change_of_def damped_value_def fsub_def signed_inf_def)

lemma sweep_updates_entries:
  "(name, old_val, stored) \<in> set (sweep_updates slv t eqs s) \<Longrightarrow>
   (\<exists>old x. old_val = Fin old \<and> stored = Fin x) \<or> (isinf old_val \<and> rel_change_of stored old_val = NaN)"
proof (induction eqs arbitrary: s)
  case Nil
  then show ?case by simp
next
  case (Cons eq eqs)
  obtain n func eq_type where eq: "eq = (n, func, eq_type)" by (cases eq) auto
  show ?case
  proof (cases "at_get s t n")
    case (Inl e)
    with Cons.prems show ?thesis by (simp add: eq)
  next
    case (Inr v)
    show ?thesis
    proof (cases "usable_result (func s t)")
      case None
      with Inr Cons.prems Cons.IH show ?thesis by (simp add: eq)
    next
      case (Some new_val)
      obtain c where c: "new_val = Fin c" using usable_result_Some[OF Some] by blast
      define dv where "dv = damped_value (damping slv) (Fin c) (prior_value v)"
      from Inr Some Cons.prems
      consider "(name, old_val, stored) = (n, prior_value v, dv)"
        | "(name, old_val, stored) \<in> set (sweep_updates slv t eqs (at_set s t n dv))"
        by (auto simp: eq c dv_def Let_def)
      then show ?thesis
      proof cases
        case 1
        then have o: "old_val = prior_value v" and st: "stored = dv" by simp_all
        show ?thesis
        proof (cases "prior_value v")
          case (Fin a)
          then show ?thesis by (simp add: o st dv_def damped_value_def)
        next
          case PInf
          then show ?thesis using rel_change_of_infinite[of PInf "damping slv" c]
            by (simp add: o st dv_def isinf_def)
        next
          case NInf
          then show ?thesis using rel_change_of_infinite[of NInf "damping slv" c]
            by (simp add: o st dv_def isinf_def)
        next
          case NaN
          then show ?thesis using prior_value_not_nan[of v] by simp
        qed
      next
        case 2
        then show ?thesis by (rule Cons.IH)
      qed
    qed
  qed
qed

lemma rel_change_of_finite:
  "old \<noteq> 0 \<Longrightarrow> rel_change_of (Fin x) (Fin old) = Fin (\<bar>x - old\<bar> / \<bar>old\<bar>)"
  by (simp add: rel_change_of_def fsub_def)

lemma tracked_relative_entry:
  assumes "(\<exists>old x. old_val = Fin old \<and> stored = Fin x)
      \<or> (isinf old_val \<and> rel_change_of stored old_val = NaN)"
  shows "(Fin r, n) \<in> set (tracked_changes [(name, old_val, stored)])
           \<longleftrightarrow> (r, n) \<in> set (relative_change (name, old_val, stored))"
  using assms
proof
  assume "\<exists>old x. old_val = Fin old \<and> stored = Fin x"
  then obtain old x where fin: "old_val = Fin old" "stored = Fin x" by blast
  show ?thesis
  proof (cases "\<bar>old\<bar> \<le> 1 / 10 ^ 10")
    case True
    then have r0: "relative_change (name, Fin old, Fin x) = []" by simp
    from True have t0: "tracked_changes [(name, Fin old, Fin x)] = []"
      by (simp add: tracked_changes_def tracked_Fin)
    show ?thesis unfolding fin r0 t0 by simp
  next
    case False
    then have nz: "old \<noteq> 0" by auto
    from False have r0: "relative_change (name, Fin old, Fin x) = [(\<bar>x - old\<bar> / \<bar>old\<bar>, name)]"
      by simp
    from False have t0: "tracked_changes [(name, Fin old, Fin x)]
        = [(Fin (\<bar>x - old\<bar> / \<bar>old\<bar>), name)]"
      by (simp add: tracked_changes_def tracked_Fin rel_change_of_finite[OF nz])
    show ?thesis unfolding fin r0 t0 by simp
  qed
next
  assume inf: "isinf old_val \<and> rel_change_of stored old_val = NaN"
  then have r0: "relative_change (name, old_val, stored) = []"
    by (cases old_val) (auto simp: isinf_def)
  have "(Fin r, n) \<notin> set (tracked_changes [(name, old_val, stored)])"
    using inf by (auto simp: tracked_changes_def)
  then show ?thesis unfolding r0 by simp
qed

lemma tracked_relative_iff:
  assumes "\<forall>(name, old_val, stored) \<in> set ups.
      (\<exists>old x. old_val = Fin old \<and> stored = Fin x) \<or> (isinf old_val \<and> rel_change_of stored old_val = NaN)"
  shows "(Fin r, n) \<in> set (tracked_changes ups) \<longleftrightarrow> (r, n) \<in> set (relative_changes ups)"
  using assms
proof (induction ups)
  case Nil
  then show ?case by (simp add: tracked_changes_def relative_changes_def)
next
  case (Cons e ups)
  obtain name old_val stored where e: "e = (name, old_val, stored)" by (cases e) auto
  from Cons.prems have ih: "(Fin r, n) \<in> set (tracked_changes ups) \<longleftrightarrow> (r, n) \<in> set (relative_changes ups)"
    by (intro Cons.IH) auto
  from Cons.prems have ok: "(\<exists>old x. old_val = Fin old \<and> stored = Fin x)
      \<or> (isinf old_val \<and> rel_change_of stored old_val = NaN)" by (simp add: e)
  have rc: "relative_changes (e # ups) = relative_change (name, old_val, stored) @ relative_changes ups"
    by (simp add: relative_changes_def e)
  have tc: "tracked_changes (e # ups) = tracked_changes [(name, old_val, stored)] @ tracked_changes ups"
    by (simp add: tracked_changes_def e)
  show ?case unfolding rc tc using tracked_relative_entry[OF ok, of r n name] ih by simp
qed

text \<open>
  C6. After a sweep that starts from \<open>max_change = 0.0\<close>, the tracked maximum is the
  maximum of 0 and the relative changes \<open>|stored - old| / |old|\<close> of the successful updates
  of that sweep whose old value has \<open>|old| > 1e-10\<close>; the worst variable is the name of an
  update that attains it (or the initial empty name). An update with \<open>|old| <= 1e-10\<close>
  is left out of the maximum, and the store after the sweep has the damped value of
  every successful update written, tracked or not.
\<close>

theorem sweep_metric_is_maximum:
  assumes "sweep slv t eqs (Fin 0, []) s = (Inr (max_change, worst_var), s')"
  shows "max_change = Fin (Max (insert 0 (fst ` set (relative_changes (sweep_updates slv t eqs s)))))
       \<and> (max_change, worst_var)
           \<in> set (map (\<lambda>(r, n). (Fin r, n)) ((0, []) # relative_changes (sweep_updates slv t eqs s)))
       \<and> s' = store_updates t (sweep_updates slv t eqs s) s"
proof -
  let ?ups = "sweep_updates slv t eqs s"
  from sweep_metric_general[OF assms]
  have mem: "(max_change, worst_var) \<in> set ((Fin 0, []) # tracked_changes ?ups)"
    and ge: "max_change = Fin 0 \<or> fgt max_change (Fin 0)"
    and top: "\<forall>(r, n) \<in> set (tracked_changes ?ups). \<not> fgt r max_change"
    and st: "s' = store_updates t ?ups s" by auto
  have ok: "\<forall>(name, old_val, stored) \<in> set ?ups.
      (\<exists>old x. old_val = Fin old \<and> stored = Fin x) \<or> (isinf old_val \<and> rel_change_of stored old_val = NaN)"
    using sweep_updates_entries by blast
  note iff = tracked_relative_iff[OF ok]
  have tr: "\<exists>r. x = Fin r \<or> x = NaN" if "(x, n) \<in> set (tracked_changes ?ups)" for x n
  proof -
    from that obtain name old_val stored where e: "(name, old_val, stored) \<in> set ?ups"
      and x: "x = rel_change_of stored old_val" and trk: "tracked old_val"
      by (auto simp: tracked_changes_def)
    from ok e have "(\<exists>old x. old_val = Fin old \<and> stored = Fin x)
        \<or> (isinf old_val \<and> rel_change_of stored old_val = NaN)" by blast
    then show ?thesis
    proof
      assume "\<exists>old x. old_val = Fin old \<and> stored = Fin x"
      then obtain old y where fin: "old_val = Fin old" "stored = Fin y" by blast
      with trk have "old \<noteq> 0" by (auto simp: tracked_Fin)
      then show ?thesis unfolding x fin by (simp add: rel_change_of_finite)
    next
      assume "isinf old_val \<and> rel_change_of stored old_val = NaN"
      then show ?thesis by (simp add: x)
    qed
  qed
  have "max_change \<noteq> NaN" using ge by auto
  have "max_change \<noteq> PInf \<and> max_change \<noteq> NInf"
  proof (cases "max_change = Fin 0")
    case True then show ?thesis by simp
  next
    case False
    with mem have "(max_change, worst_var) \<in> set (tracked_changes ?ups)" by simp
    from tr[OF this] show ?thesis by auto
  qed
  with \<open>max_change \<noteq> NaN\<close> obtain m where m: "max_change = Fin m" by (cases max_change) auto
  have m0: "0 \<le> m" using ge by (auto simp: m)
  have in_list: "(m, worst_var) \<in> set ((0, []) # relative_changes ?ups)"
    using mem iff[of m worst_var] by (auto simp: m)
  have le: "r \<le> m" if "(r, n) \<in> set (relative_changes ?ups)" for r n
  proof -
    from that iff[of r n] have "(Fin r, n) \<in> set (tracked_changes ?ups)" by simp
    with top have "\<not> fgt (Fin r) (Fin m)" by (auto simp: m)
    then show ?thesis by simp
  qed
  have "Max (insert 0 (fst ` set (relative_changes ?ups))) = m"
  proof (rule Max_eqI)
    show "finite (insert 0 (fst ` set (relative_changes ?ups)))" by simp
    show "y \<le> m" if "y \<in> insert 0 (fst ` set (relative_changes ?ups))" for y
      using that m0 le by auto
    show "m \<in> insert 0 (fst ` set (relative_changes ?ups))"
      using in_list by force
  qed
  moreover have "(max_change, worst_var)
      \<in> set (map (\<lambda>(r, n). (Fin r, n)) ((0, []) # relative_changes ?ups))"
    using in_list unfolding m by force
  ultimately show ?thesis using m st by simp
qed

theorem sweep_metric_is_maximum_witness:
  "fst (sweep (GaussSeidelSolver_init three_equations None None (Some (1 / 2))) 1 three_equations
       (Fin 0, []) (xyz_store (Fin 2) (Fin 0) (Fin 4))) = Inr (Fin (1 / 4), ''X'')
   \<and> relative_changes (sweep_updates (GaussSeidelSolver_init three_equations None None (Some (1 / 2)))
       1 three_equations (xyz_store (Fin 2) (Fin 0) (Fin 4))) = [(1 / 4, ''X''), (1 / 8, ''Z'')]
   \<and> value_at (snd (sweep (GaussSeidelSolver_init three_equations None None (Some (1 / 2))) 1
       three_equations (Fin 0, []) (xyz_store (Fin 2) (Fin 0) (Fin 4)))) 1 ''Y'' = Fin (5 / 2)"
proof -
  let ?slv = "GaussSeidelSolver_init three_equations None None (Some (1 / 2))"
  let ?s = "xyz_store (Fin 2) (Fin 0) (Fin 4)"
  let ?run = "sweep ?slv 1 three_equations (Fin 0, []) ?s"
  have ups: "sweep_updates ?slv 1 three_equations ?s
      = [(''X'', Fin 2, Fin (5 / 2)), (''Y'', Fin 0, Fin (5 / 2)), (''Z'', Fin 4, Fin (9 / 2))]"
    by (simp add: three_equations_def fixture_defs xyz_store_def at_get_def at_set_def
        usable_result_def prior_value_def damped_value_def isna_def isinf_def Let_def)
  have rel: "relative_changes (sweep_updates ?slv 1 three_equations ?s)
      = [(1 / 4, ''X''), (1 / 8, ''Z'')]"
    unfolding ups by (simp add: relative_changes_def)
  have mx: "Max (insert 0 (fst ` set [(1 / 4 :: real, ''X''), (1 / 8, ''Z'')])) = 1 / 4"
    by simp
  obtain r s' where run: "?run = (r, s')" by (cases ?run)
  from sweep_ok[of 1 ?s three_equations ?slv "(Fin 0, [])"]
  obtain mc wv where r: "r = Inr (mc, wv)"
    using run by (auto simp: three_equations_def xyz_store_def)
  from sweep_metric_is_maximum[OF run[unfolded r]]
  have mc: "mc = Fin (1 / 4)"
    and wv: "wv = ''X''"
    and st: "s' = store_updates 1 (sweep_updates ?slv 1 three_equations ?s) ?s"
    unfolding rel mx by auto
  note wv
  moreover have "value_at s' 1 ''Y'' = Fin (5 / 2)"
    unfolding st ups by (simp add: store_updates_def)
  ultimately show ?thesis using run r mc rel by simp
qed

subsection \<open>Every operation of a period writes in that period only\<close>

lemma at_get_value_at: "at_get s t name = Inr v \<Longrightarrow> value_at s t name = v"
  by (auto simp: at_get_def value_at_def split: if_splits)

lemma at_get_present: "t \<in> rows s \<Longrightarrow> name \<in> cols s \<Longrightarrow> at_get s t name = Inr (value_at s t name)"
  by (simp add: at_get_def value_at_def)

lemma writes_only_refl: "writes_only T s s"
  by (simp add: writes_only_def)

lemma writes_only_trans:
  "writes_only T s s' \<Longrightarrow> writes_only T' s' s'' \<Longrightarrow> writes_only (T \<union> T') s s''"
  by (auto simp: writes_only_def)

lemma writes_only_trans_same:
  "writes_only T s s' \<Longrightarrow> writes_only T s' s'' \<Longrightarrow> writes_only T s s''"
  by (auto simp: writes_only_def)

lemma writes_only_mono: "writes_only T s s' \<Longrightarrow> T \<subseteq> T' \<Longrightarrow> writes_only T' s s'"
  by (auto simp: writes_only_def)

lemma writes_only_at_set: "writes_only {t} s (at_set s t name v)"
  by (auto simp: writes_only_def at_set_def value_at_def)

lemma writes_only_set_column_nan: "name \<notin> cols s \<Longrightarrow> writes_only T s (set_column_nan s name)"
  by (auto simp: writes_only_def set_column_nan_def value_at_def)

lemma writes_only_initialise_vars:
  "initialise_vars names t s = (r, s') \<Longrightarrow> writes_only {t} s s'"
proof (induction names arbitrary: s)
  case Nil
  then show ?case by (simp add: writes_only_refl)
next
  case (Cons name names)
  define s1 where "s1 = (if name \<notin> cols s then set_column_nan s name else s)"
  have w1: "writes_only {t} s s1"
    by (simp add: s1_def writes_only_refl writes_only_set_column_nan)
  have "writes_only {t} s1 s'"
  proof (cases "at_get s1 t name")
    case (Inl e)
    with Cons.prems show ?thesis by (simp add: s1_def[symmetric] Let_def writes_only_refl)
  next
    case (Inr cur)
    show ?thesis
    proof (cases "isna cur")
      case False
      with Inr Cons.prems have "initialise_vars names t s1 = (r, s')"
        by (simp add: s1_def[symmetric] Let_def)
      then show ?thesis by (rule Cons.IH)
    next
      case True
      show ?thesis
      proof (cases "at_get s1 (t - 1) name")
        case (Inl e)
        with True Inr Cons.prems show ?thesis
          by (simp add: s1_def[symmetric] Let_def writes_only_refl)
      next
        case (Inr prev_val)
        define v where "v = (if \<not> isna prev_val then prev_val else Fin 1)"
        from True \<open>at_get s1 t name = Inr cur\<close> Inr Cons.prems
        have "initialise_vars names t (at_set s1 t name v) = (r, s')"
          by (simp add: s1_def[symmetric] Let_def v_def split: if_splits)
        from Cons.IH[OF this] writes_only_at_set[of t s1 name v]
        show ?thesis by (rule writes_only_trans_same[rotated])
      qed
    qed
  qed
  with w1 show ?case by (rule writes_only_trans_same)
qed

lemma writes_only_pre_solve: "writes_only {t} s (pre_solve_cost_block linalg_solve t s)"
proof -
  have "writes_only {t} s (at_set (at_set (at_set s t ''SCOST'' x0) t ''CCOST'' x1) t ''UTCOST'' x2)"
    for x0 x1 x2
    by (meson writes_only_at_set writes_only_trans_same)
  then show ?thesis
    by (auto simp: pre_solve_cost_block_def writes_only_refl split: option.splits)
qed

lemma writes_only_adjustment_pairs:
  "apply_adjustment_pairs tbl t s = (r, s') \<Longrightarrow> writes_only {t} s s'"
proof (induction tbl t s rule: apply_adjustment_pairs.induct)
  case (1 t s)
  then show ?case by (simp add: writes_only_refl)
next
  case (2 var adj_var rest t s)
  show ?case
  proof (cases "var \<in> cols s \<and> adj_var \<in> cols s")
    case False
    with "2.prems" "2.IH"(3) show ?thesis by auto
  next
    case True
    note both = True
    show ?thesis
    proof (cases "at_get s t adj_var")
      case (Inl e)
      with both "2.prems" show ?thesis by (auto simp: writes_only_refl)
    next
      case (Inr adj_val)
      note adj = Inr
      show ?thesis
      proof (cases "isna adj_val")
        case True
        with both adj "2.prems" "2.IH"(2) show ?thesis by auto
      next
        case False
        note defined = False
        show ?thesis
        proof (cases "at_get s t var")
          case (Inl e)
          with both adj defined "2.prems" show ?thesis by (auto simp: writes_only_refl)
        next
          case (Inr cur)
          with both adj defined "2.prems"
          have "apply_adjustment_pairs rest t (at_set s t var (fadd cur adj_val)) = (r, s')"
            by simp
          from "2.IH"(1)[OF both adj defined Inr this] writes_only_at_set[of t s var "fadd cur adj_val"]
          show ?thesis by (rule writes_only_trans_same[rotated])
        qed
      qed
    qed
  qed
qed

lemma writes_only_adjustments:
  "apply_additive_adjustments t s = (r, s') \<Longrightarrow> writes_only {t} s s'"
  unfolding apply_additive_adjustments_def by (rule writes_only_adjustment_pairs)

lemma writes_only_sweep_equation:
  "sweep_equation slv t eq mw s = (r, s') \<Longrightarrow> writes_only {t} s s'"
  by (cases eq; cases mw)
    (auto simp: Let_def writes_only_refl writes_only_at_set split: sum.splits option.splits if_splits)

lemma writes_only_sweep:
  "sweep slv t eqs mw s = (r, s') \<Longrightarrow> writes_only {t} s s'"
proof (induction eqs arbitrary: mw s)
  case Nil
  then show ?case by (simp add: writes_only_refl)
next
  case (Cons eq eqs)
  obtain r1 s1 where st: "sweep_equation slv t eq mw s = (r1, s1)" by (cases "sweep_equation slv t eq mw s")
  note w1 = writes_only_sweep_equation[OF st]
  show ?case
  proof (cases r1)
    case (Inl e)
    with st Cons.prems w1 show ?thesis by simp
  next
    case (Inr mw')
    with st Cons.prems have "sweep slv t eqs mw' s1 = (r, s')" by simp
    from w1 Cons.IH[OF this] show ?thesis by (rule writes_only_trans_same)
  qed
qed

lemma writes_only_iterate:
  "iterate slv t k iteration prev s = (r, ws, s') \<Longrightarrow> writes_only {t} s s'"
proof (induction k arbitrary: iteration prev s)
  case 0
  then show ?case
    by (auto simp: writes_only_refl split: option.splits prod.splits sum.splits
        dest: writes_only_adjustments)
next
  case (Suc k)
  obtain r1 s1 where sw: "sweep slv t (equations slv) (Fin 0, []) s = (r1, s1)"
    by (cases "sweep slv t (equations slv) (Fin 0, []) s")
  note w1 = writes_only_sweep[OF sw]
  show ?case
  proof (cases r1)
    case (Inl e)
    with sw Suc.prems w1 show ?thesis by simp
  next
    case (Inr mw)
    obtain mc wv where mw: "mw = (mc, wv)" by (cases mw)
    show ?thesis
    proof (cases "flt mc (Fin (tol slv))")
      case True
      obtain r2 s2 where ad: "apply_additive_adjustments t s1 = (r2, s2)"
        by (cases "apply_additive_adjustments t s1")
      from True sw Inr mw ad Suc.prems have "s' = s2" by (auto split: sum.splits)
      with writes_only_adjustments[OF ad] w1 show ?thesis
        by (auto intro: writes_only_trans_same)
    next
      case False
      with sw Inr mw Suc.prems
      have "iterate slv t k (iteration + 1) (Some (mc, wv)) s1 = (r, ws, s')" by simp
      from w1 Suc.IH[OF this] show ?thesis by (rule writes_only_trans_same)
    qed
  qed
qed

lemma writes_only_solve_period:
  "solve_period linalg_solve slv t s = (r, ws, s') \<Longrightarrow> writes_only {t} s s'"
proof -
  assume a: "solve_period linalg_solve slv t s = (r, ws, s')"
  obtain r1 s1 where i: "initialise_period slv t s = (r1, s1)"
    by (cases "initialise_period slv t s")
  then have w1: "writes_only {t} s s1"
    unfolding initialise_period_def by (rule writes_only_initialise_vars)
  show ?thesis
  proof (cases r1)
    case (Inl e)
    with a i w1 show ?thesis by (simp add: solve_period_def)
  next
    case (Inr u)
    with a i have "iterate slv t (nat (max_iter slv)) 0 None (pre_solve_cost_block linalg_solve t s1) = (r, ws, s')"
      by (simp add: solve_period_def)
    from writes_only_iterate[OF this] have "writes_only {t} s1 s'"
      using writes_only_pre_solve[of t s1 linalg_solve] by (auto intro: writes_only_trans_same)
    with w1 show ?thesis by (rule writes_only_trans_same)
  qed
qed

subsection \<open>Ranges\<close>

lemma then_range_empty: "then_range (Inr [], [], s) rest = rest s"
  by (simp add: then_range_def split: prod.splits sum.splits)

lemma solve_range_unfold:
  "t \<le> end_period \<Longrightarrow>
   solve_range linalg_solve slv t end_period s =
     (case solve_period linalg_solve slv t s of
        (Inl e, ws, s') \<Rightarrow> (Inl e, ws, s')
      | (Inr iters, ws, s') \<Rightarrow>
          then_range (Inr [(t, iters)], ws, s') (solve_range linalg_solve slv (t + 1) end_period))"
  by (subst solve_range.simps) (simp add: then_range_def split: prod.splits sum.splits)

lemma then_range_assoc:
  "then_range (then_range (Inr r0, ws0, s0) f) g = then_range (Inr r0, ws0, s0) (\<lambda>s. then_range (f s) g)"
  by (simp add: then_range_def split: prod.splits sum.splits)

lemma then_range_at_state:
  "f s0 = g s0 \<Longrightarrow> then_range (Inr r0, ws0, s0) f = then_range (Inr r0, ws0, s0) g"
  by (simp add: then_range_def)

lemma writes_only_solve_range:
  "solve_range linalg_solve slv t end_period s = (r, ws, s') \<Longrightarrow> writes_only {t..end_period} s s'"
proof (induction linalg_solve slv t end_period s arbitrary: r ws s' rule: solve_range.induct)
  case (1 linalg_solve slv t end_period s)
  show ?case
  proof (cases "t \<le> end_period")
    case False
    then have "solve_range linalg_solve slv t end_period s = (Inr [], [], s)"
      by (subst solve_range.simps) simp
    with "1.prems" show ?thesis by (simp add: writes_only_refl)
  next
    case True
    obtain r1 ws1 s1 where sp: "solve_period linalg_solve slv t s = (r1, ws1, s1)"
      by (cases "solve_period linalg_solve slv t s") auto
    have w1: "writes_only {t..end_period} s s1"
      using writes_only_solve_period[OF sp] True by (auto intro: writes_only_mono)
    show ?thesis
    proof (cases r1)
      case (Inl e)
      with sp "1.prems" w1 show ?thesis by (simp add: solve_range_unfold[OF True])
    next
      case (Inr iters)
      obtain r2 ws2 s2 where sr: "solve_range linalg_solve slv (t + 1) end_period s1 = (r2, ws2, s2)"
        by (cases "solve_range linalg_solve slv (t + 1) end_period s1") auto
      from "1.IH"[OF True sp[symmetric] Inr refl sr]
      have "writes_only {t..end_period} s1 s2" by (auto intro: writes_only_mono)
      moreover from sp Inr sr "1.prems" have "s' = s2"
        by (simp add: solve_range_unfold[OF True] then_range_def split: sum.splits)
      ultimately show ?thesis using w1 by (auto intro: writes_only_trans_same)
    qed
  qed
qed

lemma solve_range_split:
  "t \<le> t1 + 1 \<Longrightarrow> t1 \<le> t2 \<Longrightarrow>
   solve_range linalg_solve slv t t2 s =
     then_range (solve_range linalg_solve slv t t1 s) (solve_range linalg_solve slv (t1 + 1) t2)"
proof (induction linalg_solve slv t t1 s rule: solve_range.induct)
  case (1 linalg_solve slv t t1 s)
  show ?case
  proof (cases "t \<le> t1")
    case False
    with "1.prems" have "t = t1 + 1" by simp
    moreover have "solve_range linalg_solve slv (t1 + 1) t1 s = (Inr [], [], s)"
      by (subst solve_range.simps) simp
    ultimately show ?thesis by (simp add: then_range_empty)
  next
    case True
    then have le2: "t \<le> t2" using "1.prems" by simp
    obtain r1 ws1 s1 where sp: "solve_period linalg_solve slv t s = (r1, ws1, s1)"
      by (cases "solve_period linalg_solve slv t s") auto
    show ?thesis
    proof (cases r1)
      case (Inl e)
      with sp show ?thesis
        by (simp add: solve_range_unfold[OF True] solve_range_unfold[OF le2] then_range_def)
    next
      case (Inr iters)
      from True "1.prems" have "t + 1 \<le> t1 + 1" by simp
      from "1.IH"[OF True sp[symmetric] Inr refl this "1.prems"(2)]
      have ih: "solve_range linalg_solve slv (t + 1) t2 s1 =
        then_range (solve_range linalg_solve slv (t + 1) t1 s1) (solve_range linalg_solve slv (t1 + 1) t2)" .
      show ?thesis
        unfolding solve_range_unfold[OF True] solve_range_unfold[OF le2] sp Inr
        by (simp add: then_range_assoc) (rule then_range_at_state, simp add: ih)
    qed
  qed
qed

text \<open>
  C1. For periods \<open>t1 < t2\<close>, solving \<open>[t0, t1]\<close> and solving \<open>[t0, t2]\<close> from the same
  store leave the same content in every cell \<open>(p, name)\<close> with \<open>p\<close> in \<open>[t0, t1]\<close>, and a
  read that succeeds after the shorter run succeeds with the same value after the longer
  one (also when a period raises). Solving one period changes no cell of another period.
  The equations are arbitrary functions of the store.
\<close>

theorem solve_range_prefix_stable:
  assumes "t1 < t2" and "t0 \<le> p" and "p \<le> t1"
  shows "value_at (snd (snd (solve_range linalg_solve slv t0 t1 s))) p name
           = value_at (snd (snd (solve_range linalg_solve slv t0 t2 s))) p name
       \<and> (at_get (snd (snd (solve_range linalg_solve slv t0 t1 s))) p name = Inr v
           \<longrightarrow> at_get (snd (snd (solve_range linalg_solve slv t0 t2 s))) p name = Inr v)
       \<and> (\<forall>q. q \<noteq> p \<longrightarrow>
             value_at (snd (snd (solve_period linalg_solve slv p s))) q name = value_at s q name)"
proof -
  obtain r1 ws1 s1 where run1: "solve_range linalg_solve slv t0 t1 s = (r1, ws1, s1)"
    by (cases "solve_range linalg_solve slv t0 t1 s") auto
  obtain r2 ws2 s2 where run2: "solve_range linalg_solve slv t0 t2 s = (r2, ws2, s2)"
    by (cases "solve_range linalg_solve slv t0 t2 s") auto
  have split: "solve_range linalg_solve slv t0 t2 s =
     then_range (solve_range linalg_solve slv t0 t1 s) (solve_range linalg_solve slv (t1 + 1) t2)"
    using assms by (intro solve_range_split) auto
  have w: "writes_only {t1 + 1..t2} s1 s2"
  proof (cases r1)
    case (Inl e)
    with split run1 run2 have "s2 = s1" by (simp add: then_range_def)
    then show ?thesis by (simp add: writes_only_refl)
  next
    case (Inr res)
    obtain r3 ws3 s3 where run3: "solve_range linalg_solve slv (t1 + 1) t2 s1 = (r3, ws3, s3)"
      by (cases "solve_range linalg_solve slv (t1 + 1) t2 s1") auto
    with split run1 run2 Inr have "s2 = s3" by (simp add: then_range_def split: sum.splits)
    with writes_only_solve_range[OF run3] show ?thesis by simp
  qed
  have same: "value_at s2 p name = value_at s1 p name"
    using w assms(3) by (simp add: writes_only_def)
  have rd: "at_get s1 p name = Inr v \<longrightarrow> at_get s2 p name = Inr v"
    using w same by (auto simp: writes_only_def at_get_def value_at_def split: if_splits)
  have fr: "\<forall>q. q \<noteq> p \<longrightarrow>
      value_at (snd (snd (solve_period linalg_solve slv p s))) q name = value_at s q name"
  proof -
    obtain r ws s' where sp: "solve_period linalg_solve slv p s = (r, ws, s')"
      by (cases "solve_period linalg_solve slv p s") auto
    from writes_only_solve_period[OF sp] show ?thesis by (simp add: sp writes_only_def)
  qed
  show ?thesis using same rd fr by (simp add: run1 run2)
qed

theorem solve_range_prefix_stable_witness:
  "value_at (snd (snd (solve_range no_linalg
       (GaussSeidelSolver_init (one_equation (RVal (Fin 2))) (Some 3) None (Some 1)) 1 1
       (flat_store (Fin 1))))) 1 ''X'' = Fin 2
   \<and> value_at (snd (snd (solve_range no_linalg
       (GaussSeidelSolver_init (one_equation (RVal (Fin 2))) (Some 3) None (Some 1)) 1 2
       (flat_store (Fin 1))))) 1 ''X'' = Fin 2"
proof -
  let ?slv = "GaussSeidelSolver_init (one_equation (RVal (Fin 2))) (Some 3) None (Some 1)"
  have short: "value_at (snd (snd (solve_range no_linalg ?slv 1 1 (flat_store (Fin 1))))) 1 ''X'' = Fin 2"
    by (simp add: solve_range.simps fixture_defs run_defs eval_nat_numeral)
  have "(1::int) < 2" "(1::int) \<le> 1" by simp_all
  from solve_range_prefix_stable[OF this(1) this(2) this(2), of no_linalg ?slv "flat_store (Fin 1)" "''X''"]
  have "value_at (snd (snd (solve_range no_linalg ?slv 1 1 (flat_store (Fin 1))))) 1 ''X''
      = value_at (snd (snd (solve_range no_linalg ?slv 1 2 (flat_store (Fin 1))))) 1 ''X''"
    by blast
  with short show ?thesis by simp
qed

subsection \<open>The post-processor\<close>

lemma apply_adjustment_pairs_spec:
  assumes "t \<in> rows s" and "distinct (map fst tbl)"
    and "set (map snd tbl) \<inter> set (map fst tbl) = {}"
  shows "\<exists>s'. apply_adjustment_pairs tbl t s = (Inr (), s')
           \<and> rows s' = rows s \<and> cols s' = cols s
           \<and> (\<forall>p name. value_at s' p name = adjusted tbl t s p name)"
  using assms
proof (induction tbl arbitrary: s)
  case Nil
  then show ?case by (simp add: adjusted_def)
next
  case (Cons pair rest)
  obtain var adj_var where pair: "pair = (var, adj_var)" by (cases pair)
  from Cons.prems have d: "distinct (map fst rest)" "var \<notin> fst ` set rest"
    and dj: "set (map snd rest) \<inter> set (map fst rest) = {}" "var \<notin> snd ` set rest"
    "adj_var \<noteq> var"
    by (auto simp: pair)
  have nomap: "map_of rest var = None" using d(2) by (simp add: map_of_eq_None_iff)
  show ?case
  proof (cases "var \<in> cols s \<and> adj_var \<in> cols s \<and> \<not> isna (value_at s t adj_var)")
    case False
    then have step: "apply_adjustment_pairs (pair # rest) t s = apply_adjustment_pairs rest t s"
      using Cons.prems(1) by (auto simp: pair at_get_present)
    from Cons.IH[OF Cons.prems(1) d(1) dj(1)]
    obtain s' where s': "apply_adjustment_pairs rest t s = (Inr (), s')"
      "rows s' = rows s" "cols s' = cols s" "\<forall>p name. value_at s' p name = adjusted rest t s p name"
      by blast
    have "adjusted (pair # rest) t s p name = adjusted rest t s p name" for p name
      using False nomap by (auto simp: adjusted_def pair)
    with s' step show ?thesis by simp
  next
    case True
    define s1 where "s1 = at_set s t var (fadd (value_at s t var) (value_at s t adj_var))"
    have step: "apply_adjustment_pairs (pair # rest) t s = apply_adjustment_pairs rest t s1"
      using True Cons.prems(1) by (simp add: pair at_get_present s1_def)
    have rc: "rows s1 = rows s" "cols s1 = cols s"
      using True Cons.prems(1) by (simp_all add: s1_def at_set_rows_cols)
    then have "t \<in> rows s1" using Cons.prems(1) by simp
    from Cons.IH[OF this d(1) dj(1)]
    obtain s' where s': "apply_adjustment_pairs rest t s1 = (Inr (), s')"
      "rows s' = rows s1" "cols s' = cols s1" "\<forall>p name. value_at s' p name = adjusted rest t s1 p name"
      by blast
    have "adjusted rest t s1 p name = adjusted (pair # rest) t s p name" for p name
    proof (cases "name = var")
      case True
      then show ?thesis using nomap \<open>var \<in> cols s \<and> adj_var \<in> cols s \<and> \<not> isna (value_at s t adj_var)\<close>
        by (simp add: adjusted_def pair s1_def)
    next
      case False
      show ?thesis
      proof (cases "map_of rest name")
        case None
        then show ?thesis using False by (simp add: adjusted_def pair s1_def)
      next
        case (Some adj)
        then have "adj \<in> snd ` set rest" by (metis map_of_SomeD image_eqI snd_conv)
        then have "adj \<noteq> var" using dj(2) by auto
        then show ?thesis using False Some rc
          by (simp add: adjusted_def pair s1_def)
      qed
    qed
    with s' step rc show ?thesis by simp
  qed
qed

lemma apply_additive_adjustments_spec:
  assumes "t \<in> rows s"
  shows "\<exists>s'. apply_additive_adjustments t s = (Inr (), s')
           \<and> rows s' = rows s \<and> cols s' = cols s
           \<and> (\<forall>p name. value_at s' p name = adjusted ADDITIVE_ADJUSTMENTS t s p name)"
  unfolding apply_additive_adjustments_def
  by (rule apply_adjustment_pairs_spec[OF assms]) (simp_all add: ADDITIVE_ADJUSTMENTS_def)

subsection \<open>The loop and what follows it\<close>

lemma iterate_run_sweeps:
  "iterate slv t k iteration prev s =
     (case run_sweeps slv t k iteration prev s of (oc, s') \<Rightarrow> finish slv t oc s')"
proof (induction k arbitrary: iteration prev s)
  case 0
  then show ?case by (simp split: option.splits prod.splits)
next
  case (Suc k)
  then show ?case by (simp split: prod.splits sum.splits)
qed

lemma writes_only_run_sweeps:
  "run_sweeps slv t k iteration prev s = (oc, s') \<Longrightarrow> writes_only {t} s s'"
proof (induction k arbitrary: iteration prev s)
  case 0
  then show ?case by (auto simp: writes_only_refl split: option.splits)
next
  case (Suc k)
  obtain r1 s1 where sw: "sweep slv t (equations slv) (Fin 0, []) s = (r1, s1)"
    by (cases "sweep slv t (equations slv) (Fin 0, []) s")
  note w1 = writes_only_sweep[OF sw]
  show ?case
  proof (cases r1)
    case (Inl e)
    with sw Suc.prems w1 show ?thesis by simp
  next
    case (Inr mw)
    obtain mc wv where mw: "mw = (mc, wv)" by (cases mw)
    show ?thesis
    proof (cases "flt mc (Fin (tol slv))")
      case True
      with sw Inr mw Suc.prems w1 show ?thesis by simp
    next
      case False
      with sw Inr mw Suc.prems
      have "run_sweeps slv t k (iteration + 1) (Some (mc, wv)) s1 = (oc, s')" by simp
      from w1 Suc.IH[OF this] show ?thesis by (rule writes_only_trans_same)
    qed
  qed
qed

lemma run_sweeps_exhausted:
  "run_sweeps slv t k iteration prev s = (Exhausted mc wv, s') \<Longrightarrow>
   (k = 0 \<and> prev = Some (mc, wv) \<and> s' = s)
   \<or> (\<exists>s0. sweep slv t (equations slv) (Fin 0, []) s0 = (Inr (mc, wv), s')
          \<and> \<not> flt mc (Fin (tol slv)))"
proof (induction k arbitrary: iteration prev s)
  case 0
  then show ?case by (auto split: option.splits)
next
  case (Suc k)
  obtain r1 s1 where sw: "sweep slv t (equations slv) (Fin 0, []) s = (r1, s1)"
    by (cases "sweep slv t (equations slv) (Fin 0, []) s")
  show ?case
  proof (cases r1)
    case (Inl e)
    with sw Suc.prems show ?thesis by simp
  next
    case (Inr mw)
    obtain mc1 wv1 where mw: "mw = (mc1, wv1)" by (cases mw)
    show ?thesis
    proof (cases "flt mc1 (Fin (tol slv))")
      case True
      with sw Inr mw Suc.prems show ?thesis by simp
    next
      case False
      with sw Inr mw Suc.prems
      have "run_sweeps slv t k (iteration + 1) (Some (mc1, wv1)) s1 = (Exhausted mc wv, s')" by simp
      from Suc.IH[OF this] show ?thesis using sw Inr mw False by auto
    qed
  qed
qed

lemma solve_period_run_sweeps:
  assumes "initialise_period slv t s = (Inr u, s1)"
    and "run_sweeps slv t (nat (max_iter slv)) 0 None (pre_solve_cost_block linalg_solve t s1) = (oc, s3)"
  shows "solve_period linalg_solve slv t s = finish slv t oc s3"
  using assms by (simp add: solve_period_def iterate_run_sweeps)

lemma loop_store_has_row:
  assumes "t \<in> rows s" and "initialise_period slv t s = (r, s1)"
    and "run_sweeps slv t k iteration prev (pre_solve_cost_block linalg_solve t s1) = (oc, s3)"
  shows "t \<in> rows s3"
proof -
  have "writes_only {t} s s1"
    using assms(2) unfolding initialise_period_def by (rule writes_only_initialise_vars)
  moreover have "writes_only {t} s1 (pre_solve_cost_block linalg_solve t s1)"
    by (rule writes_only_pre_solve)
  moreover have "writes_only {t} (pre_solve_cost_block linalg_solve t s1) s3"
    using assms(3) by (rule writes_only_run_sweeps)
  ultimately show ?thesis using assms(1) by (auto simp: writes_only_def)
qed

text \<open>
  C5. When period \<open>t\<close> is a row of the table, initialisation succeeds and the sweep
  loop ends by convergence or by exhausting its budget, \<open>solve_period\<close> returns normally
  and its final store is the post-processor applied once to the store the loop left
  (the loop itself consists of sweeps only). The post-processor adds, for each pair of
  the table, the adjustment's value at \<open>t\<close> to the target's cell at \<open>t\<close> exactly when both
  columns exist and the adjustment is defined, and changes nothing else.
\<close>

theorem adjustments_once_after_loop:
  assumes "t \<in> rows s"
    and "initialise_period slv t s = (Inr u, s1)"
    and "run_sweeps slv t (nat (max_iter slv)) 0 None (pre_solve_cost_block linalg_solve t s1) = (oc, s3)"
    and "oc = Converged n \<or> oc = Exhausted max_change worst_var"
  shows "\<exists>ws s4. solve_period linalg_solve slv t s = (Inr (if oc = Converged n then n else max_iter slv), ws, s4)
           \<and> apply_additive_adjustments t s3 = (Inr (), s4)
           \<and> (\<forall>p name. value_at s4 p name = adjusted ADDITIVE_ADJUSTMENTS t s3 p name)"
proof -
  have "t \<in> rows s3" by (rule loop_store_has_row[OF assms(1,2,3)])
  from apply_additive_adjustments_spec[OF this]
  obtain s4 where s4: "apply_additive_adjustments t s3 = (Inr (), s4)"
    "\<forall>p name. value_at s4 p name = adjusted ADDITIVE_ADJUSTMENTS t s3 p name" by blast
  have "solve_period linalg_solve slv t s = finish slv t oc s3"
    by (rule solve_period_run_sweeps[OF assms(2,3)])
  with s4 assms(4) show ?thesis by auto
qed

theorem adjustments_once_after_loop_witness:
  "fst (solve_period no_linalg
       (GaussSeidelSolver_init (one_equation (RVal (Fin 2))) (Some 3) None (Some 1)) 1
       (adj_store (Fin 1))) = Inr 2
   \<and> value_at (snd (snd (solve_period no_linalg
       (GaussSeidelSolver_init (one_equation (RVal (Fin 2))) (Some 3) None (Some 1)) 1
       (adj_store (Fin 1))))) 1 ''PRMIP'' = Fin 2
   \<and> value_at (snd (snd (solve_period no_linalg
       (GaussSeidelSolver_init (one_equation (RVal (Fin 2))) (Some 3) None (Some 1)) 1
       (adj_store (Fin 1))))) 1 ''PRMIP_A'' = Fin 1"
proof -
  let ?slv = "GaussSeidelSolver_init (one_equation (RVal (Fin 2))) (Some 3) None (Some 1)"
  let ?run = "run_sweeps ?slv 1 (nat (max_iter ?slv)) 0 None
      (pre_solve_cost_block no_linalg 1 (adj_store (Fin 1)))"
  have row: "1 \<in> rows (adj_store (Fin 1))" by (simp add: adj_store_def)
  have init: "initialise_period ?slv 1 (adj_store (Fin 1)) = (Inr (), adj_store (Fin 1))"
    by (simp add: fixture_defs run_defs)
  have f: "fst ?run = Converged 2"
    by (simp add: fixture_defs run_defs eval_nat_numeral)
  then have run: "?run = (Converged 2, snd ?run)"
    by (metis prod.collapse)
  have oc: "Converged 2 = Converged 2 \<or> Converged 2 = Exhausted (Fin 0) []" by simp
  from adjustments_once_after_loop[OF row init run oc]
  obtain ws s4 where sp: "solve_period no_linalg ?slv 1 (adj_store (Fin 1)) = (Inr 2, ws, s4)"
    and v: "\<forall>p name. value_at s4 p name = adjusted ADDITIVE_ADJUSTMENTS 1 (snd ?run) p name"
    by auto
  have a: "adjusted ADDITIVE_ADJUSTMENTS 1 (snd ?run) 1 ''PRMIP'' = Fin 2"
    by (simp add: adjusted_def fixture_defs run_defs eval_nat_numeral)
  have b: "adjusted ADDITIVE_ADJUSTMENTS 1 (snd ?run) 1 ''PRMIP_A'' = Fin 1"
    by (simp add: adjusted_def fixture_defs run_defs eval_nat_numeral)
  from sp v a b show ?thesis by simp
qed

text \<open>
  C2. When the loop of period \<open>t\<close> exhausts its budget (a last sweep ended with a
  maximum not below the tolerance), \<open>solve_period\<close> prints one warning carrying the period,
  the budget, that last maximum and its variable, applies the post-processor to the
  store the loop left, and returns \<open>max_iter\<close> with no exception; \<open>solve_range\<close> records
  \<open>(t, max_iter)\<close> and goes on with period \<open>t + 1\<close> on that store.
\<close>

theorem non_convergence_is_recoverable:
  assumes "t \<in> rows s"
    and "initialise_period slv t s = (Inr u, s1)"
    and "run_sweeps slv t (nat (max_iter slv)) 0 None (pre_solve_cost_block linalg_solve t s1)
           = (Exhausted max_change worst_var, s3)"
  shows "\<exists>s0 s4.
           sweep slv t (equations slv) (Fin 0, []) s0 = (Inr (max_change, worst_var), s3)
         \<and> \<not> flt max_change (Fin (tol slv))
         \<and> apply_additive_adjustments t s3 = (Inr (), s4)
         \<and> solve_period linalg_solve slv t s
             = (Inr (max_iter slv), [Warning t (max_iter slv) max_change worst_var], s4)
         \<and> (\<forall>end_period. t \<le> end_period \<longrightarrow>
               solve_range linalg_solve slv t end_period s
                 = then_range (Inr [(t, max_iter slv)], [Warning t (max_iter slv) max_change worst_var], s4)
                     (solve_range linalg_solve slv (t + 1) end_period))"
proof -
  have "t \<in> rows s3" by (rule loop_store_has_row[OF assms(1,2,3)])
  from apply_additive_adjustments_spec[OF this]
  obtain s4 where s4: "apply_additive_adjustments t s3 = (Inr (), s4)" by blast
  have sp: "solve_period linalg_solve slv t s
      = (Inr (max_iter slv), [Warning t (max_iter slv) max_change worst_var], s4)"
    using solve_period_run_sweeps[OF assms(2,3)] s4 by simp
  from run_sweeps_exhausted[OF assms(3)]
  obtain s0 where s0: "sweep slv t (equations slv) (Fin 0, []) s0 = (Inr (max_change, worst_var), s3)"
    "\<not> flt max_change (Fin (tol slv))" by auto
  have "solve_range linalg_solve slv t end_period s
          = then_range (Inr [(t, max_iter slv)], [Warning t (max_iter slv) max_change worst_var], s4)
              (solve_range linalg_solve slv (t + 1) end_period)" if "t \<le> end_period" for end_period
    by (simp add: solve_range_unfold[OF that] sp)
  with s0 s4 sp show ?thesis by blast
qed

theorem non_convergence_is_recoverable_witness:
  "fst (solve_period no_linalg
       (GaussSeidelSolver_init [(''X'', flip_eq, ''identity'')] (Some 2) None (Some 1)) 1
       (flat_store (Fin 1))) = Inr 2
   \<and> fst (snd (solve_period no_linalg
       (GaussSeidelSolver_init [(''X'', flip_eq, ''identity'')] (Some 2) None (Some 1)) 1
       (flat_store (Fin 1)))) = [Warning 1 2 (Fin 2) ''X'']"
proof -
  let ?slv = "GaussSeidelSolver_init [(''X'', flip_eq, ''identity'')] (Some 2) None (Some 1)"
  let ?run = "run_sweeps ?slv 1 (nat (max_iter ?slv)) 0 None
      (pre_solve_cost_block no_linalg 1 (flat_store (Fin 1)))"
  have row: "1 \<in> rows (flat_store (Fin 1))" by (simp add: flat_store_def)
  have init: "initialise_period ?slv 1 (flat_store (Fin 1)) = (Inr (), flat_store (Fin 1))"
    by (simp add: fixture_defs run_defs)
  have "fst ?run = Exhausted (Fin 2) ''X''"
    by (simp add: fixture_defs run_defs eval_nat_numeral)
  then have run: "?run = (Exhausted (Fin 2) ''X'', snd ?run)"
    by (metis prod.collapse)
  from non_convergence_is_recoverable[OF row init run]
  obtain s4 where "solve_period no_linalg ?slv 1 (flat_store (Fin 1))
      = (Inr (max_iter ?slv), [Warning 1 (max_iter ?slv) (Fin 2) ''X''], s4)" by blast
  then show ?thesis by (simp add: fixture_defs)
qed

subsection \<open>An equation that fails in every pass\<close>











subsection \<open>The cost block\<close>





end
